theory Spec2Isabelle
  imports Main "HOL-Library.AList"
begin

section \<open>The version-bump tool of fluid-build (bumpVersion.ts)\<close>

text \<open>
  The theory embeds \<^verbatim>\<open>src/tools/fluid-build/src/bumpVersion/bumpVersion.ts\<close>:
  \<^verbatim>\<open>saveVersion\<close>, \<^verbatim>\<open>collectVersions\<close>, and from \<^verbatim>\<open>main\<close> the closures
  \<^verbatim>\<open>checkPackageNeedBump\<close> and \<^verbatim>\<open>checkMonoRepoNeedBump\<close>, the two traversal waves, the
  release report and the sequence of external commands that follows them.

  The mutable variables that the closures of \<^verbatim>\<open>main\<close> share (\<^verbatim>\<open>packageNeedBump\<close>,
  \<^verbatim>\<open>serverNeedBump\<close>, \<^verbatim>\<open>depVersions\<close>) are the fields of a state record that every function
  takes and returns. A \<^verbatim>\<open>throw\<close> is the left injection of a sum, and it carries the state
  reached when it was raised, since the variables keep their values when the exception
  leaves the traversal.
\<close>

subsection \<open>Data\<close>

text \<open>
  Modelled from the spec: the enum \<^verbatim>\<open>MonoRepoKind\<close> and the class \<^verbatim>\<open>MonoRepo\<close> are imported
  from \<^verbatim>\<open>../common/monoRepo\<close>, which is not among the sources. The spec gives the kinds
  Client and Server; the code reads only \<^verbatim>\<open>monoRepo.kind\<close> (and \<^verbatim>\<open>repoPath\<close> for the external
  command). \<open>kindName\<close> is the reverse mapping \<^verbatim>\<open>MonoRepoKind[kind]\<close> of the enum.
\<close>

datatype MonoRepoKind = Client | Server

record MonoRepo =
  kind :: MonoRepoKind

fun kindName :: "MonoRepoKind \<Rightarrow> string" where
  "kindName Client = ''Client''"
| "kindName Server = ''Server''"

text \<open>
  Modelled from the spec: the class \<^verbatim>\<open>Package\<close> is imported from \<^verbatim>\<open>../common/npmPackage\<close>,
  which is not among the sources. The code reads \<^verbatim>\<open>name\<close>, \<^verbatim>\<open>version\<close>, \<^verbatim>\<open>monoRepo\<close> (which
  may be undefined) and iterates \<^verbatim>\<open>combinedDependencies\<close>, whose elements have the fields
  \<^verbatim>\<open>name\<close>, \<^verbatim>\<open>version\<close> (the declared range) and \<^verbatim>\<open>dev\<close>; they are \<open>dep_name\<close>, \<open>dep_range\<close>
  and \<open>dev\<close> here, because \<open>name\<close> and \<open>version\<close> are the fields of the package.

  A \<^verbatim>\<open>Set<Package>\<close> compares object references. Here packages are values, and two of them
  are the same package when all their fields agree.
\<close>

record Dependency =
  dep_name :: string
  dep_range :: string
  dev :: bool

record Package =
  name :: string
  version :: string
  combinedDependencies :: "Dependency list"
  monoRepo :: "MonoRepo option"

text \<open>
  The \<^verbatim>\<open>semver\<close> library is not part of the repository. Its two functions that the tool
  calls are parameters of the model. \<^verbatim>\<open>semver.satisfies(version, range)\<close> returns a boolean
  or throws (\<open>None\<close>); \<^verbatim>\<open>semver.minVersion(range)\<close> throws, returns \<^verbatim>\<open>null\<close>, or returns an
  object whose \<^verbatim>\<open>version\<close> field is a string.
\<close>

datatype MinVersionResult = Throws | Null | SemVer string

record Semver =
  satisfies :: "string \<Rightarrow> string \<Rightarrow> bool option"
  minVersion :: "string \<Rightarrow> MinVersionResult"

text \<open>
  The errors of the tool: the \<^verbatim>\<open>Error\<close> thrown by \<^verbatim>\<open>saveVersion\<close>, whose message holds the
  package name and the version being saved; an exception of the semver library; and the
  \<^verbatim>\<open>TypeError\<close> of JavaScript on reading a property of \<^verbatim>\<open>null\<close> or \<^verbatim>\<open>undefined\<close>.
\<close>

datatype error =
    InconsistentVersion string string
  | MalformedRange
  | TypeError

text \<open>
  An object used as a dictionary, \<^verbatim>\<open>{ [key: string]: string }\<close>, is an association list:
  \<open>map_of\<close> reads a key, \<open>AList.update\<close> writes one, replacing the value in place when the
  key is there and appending the pair otherwise, which is the order in which
  \<^verbatim>\<open>for (const name in versions)\<close> enumerates string keys. Keys are taken not to meet the
  properties every object inherits.
\<close>

type_synonym VersionMap = "(string \<times> string) list"

subsection \<open>saveVersion (lines 68 to 81)\<close>

definition startsWith :: "string \<Rightarrow> string \<Rightarrow> bool" where
  "startsWith s p = (take (length p) s = p)"

text \<open>
  \<^verbatim>\<open>if (versions[key])\<close> tests the value for truthiness: a missing key gives \<^verbatim>\<open>undefined\<close>,
  and the empty string is falsy as well.
\<close>

fun truthy :: "string option \<Rightarrow> bool" where
  "truthy None = False"
| "truthy (Some s) = (s \<noteq> [])"

definition saveVersion ::
  "VersionMap \<Rightarrow> string \<Rightarrow> string \<Rightarrow> MonoRepo option \<Rightarrow> error + VersionMap" where
  "saveVersion versions nm v mr =
     (case mr of
        None \<Rightarrow> Inr (AList.update nm v versions)
      | Some m \<Rightarrow>
          if startsWith nm ''@fluid-example/version-test'' then Inr versions
          else if truthy (map_of versions (kindName (kind m))) then
            (if map_of versions (kindName (kind m)) \<noteq> Some v
             then Inl (InconsistentVersion nm v)
             else Inr versions)
          else Inr (AList.update (kindName (kind m)) v versions))"

subsection \<open>The traversal (lines 139 to 180)\<close>

text \<open>
  \<open>scanLog\<close> is not a variable of the source: it lists, in order, the packages on which
  \<^verbatim>\<open>checkPackageNeedBump\<close> was called, so that "how often was a package scanned" can be
  asked of a run. \<open>packageNeedBump\<close> is a list without repetition, in insertion order, as
  the \<^verbatim>\<open>Set\<close> of the source is when it is iterated.
\<close>

record TraversalState =
  packageNeedBump :: "Package list"
  serverNeedBump :: bool
  depVersions :: VersionMap
  scanLog :: "Package list"

type_synonym 'a result = "(error \<times> TraversalState) + 'a"

text \<open>
  \<^verbatim>\<open>buildPackages\<close> is the \<^verbatim>\<open>Map<string, Package>\<close> that \<^verbatim>\<open>repo.createPackageMap()\<close>
  returns, here an association list read with \<open>map_of\<close>.

  \<open>scanDeps\<close> is the \<^verbatim>\<open>for\<close> loop of \<^verbatim>\<open>checkPackageNeedBump\<close> over the dependencies that
  remain. The recursive call of \<^verbatim>\<open>checkPackageNeedBump\<close> on the dependency is the inner
  call of \<open>scanDeps\<close> on the dependency's own list, after the dependency was added to the
  set (and to the log).
\<close>

function (domintros) scanDeps ::
  "Semver \<Rightarrow> (string \<times> Package) list \<Rightarrow> Dependency list \<Rightarrow> TraversalState
     \<Rightarrow> TraversalState result" where
  "scanDeps sv buildPackages [] st = Inr st"
| "scanDeps sv buildPackages (d # ds) st =
     (case map_of buildPackages (dep_name d) of
        None \<Rightarrow> scanDeps sv buildPackages ds st
      | Some depBuildPackage \<Rightarrow>
         (case satisfies sv (version depBuildPackage) (dep_range d) of
            None \<Rightarrow> Inl (MalformedRange, st)
          | Some sat \<Rightarrow>
             (case
                (if sat then
                   (case monoRepo depBuildPackage of
                      None \<Rightarrow>
                        (if depBuildPackage \<notin> set (packageNeedBump st) then
                           (case scanDeps sv buildPackages (combinedDependencies depBuildPackage)
                                   (st\<lparr>packageNeedBump := packageNeedBump st @ [depBuildPackage],
                                       scanLog := scanLog st @ [depBuildPackage]\<rparr>) of
                              Inl x \<Rightarrow> Inl x
                            | Inr st' \<Rightarrow> Inr (st', version depBuildPackage))
                         else Inr (st, version depBuildPackage))
                    | Some m \<Rightarrow>
                        (if kind m = Server
                         then Inr (st\<lparr>serverNeedBump := True\<rparr>, version depBuildPackage)
                         else Inr (st, version depBuildPackage)))
                 else
                   (case minVersion sv (dep_range d) of
                      Throws \<Rightarrow> Inl (MalformedRange, st)
                    | Null \<Rightarrow> Inl (TypeError, st)
                    | SemVer mv \<Rightarrow> Inr (st, mv)))
              of
                Inl x \<Rightarrow> Inl x
              | Inr (st1, depVersion) \<Rightarrow>
                 (case saveVersion (depVersions st1) (dep_name d) depVersion
                         (monoRepo depBuildPackage) of
                    Inl e \<Rightarrow> Inl (e, st1)
                  | Inr dv \<Rightarrow> scanDeps sv buildPackages ds (st1\<lparr>depVersions := dv\<rparr>)))))"
  by pat_completeness auto

text \<open>
  The call that continues the loop comes after the inner call has returned, so that
  \<open>scanDeps\<close> is only shown to terminate with a fact about its results: a call that
  returns normally has only added to \<open>packageNeedBump\<close>. The measure is the number of
  packages of \<open>buildPackages\<close> not yet in the set, then the number of dependencies left
  in the loop.
\<close>

lemma scanDeps_mono_dom:
  "scanDeps_dom (sv, bp, ds, st) \<Longrightarrow> scanDeps sv bp ds st = Inr st' \<Longrightarrow>
     set (packageNeedBump st) \<subseteq> set (packageNeedBump st')"
proof (induction sv bp ds st arbitrary: st' rule: scanDeps.pinduct)
  case (1 sv bp st)
  then show ?case by (simp add: scanDeps.psimps)
next
  case (2 sv bp d ds st)
  note unfold = scanDeps.psimps(2)[OF "2.hyps"]
  show ?case
  proof (cases "map_of bp (dep_name d)")
    case None
    with "2.prems" "2.IH"(1) show ?thesis by (simp add: unfold)
  next
    case dp: (Some dp)
    show ?thesis
    proof (cases "satisfies sv (version dp) (dep_range d)")
      case None
      with "2.prems" dp show ?thesis by (simp add: unfold)
    next
      case sat: (Some sat)
      let ?body = "(if sat
        then case monoRepo dp of
         None \<Rightarrow>
           if dp \<notin> set (packageNeedBump st)
           then case scanDeps sv bp (combinedDependencies dp)
                      (st\<lparr>packageNeedBump := packageNeedBump st @ [dp],
                            scanLog := scanLog st @ [dp]\<rparr>) of
                Inl x \<Rightarrow> Inl x | Inr st' \<Rightarrow> Inr (st', version dp)
           else Inr (st, version dp)
         | Some m \<Rightarrow>
             if kind m = Server
             then Inr (st\<lparr>serverNeedBump := True\<rparr>, version dp)
             else Inr (st, version dp)
        else case minVersion sv (dep_range d) of
         Throws \<Rightarrow> Inl (MalformedRange, st) | Null \<Rightarrow> Inl (TypeError, st)
         | SemVer mv \<Rightarrow> Inr (st, mv))"
      show ?thesis
      proof (cases ?body)
        case (Inl x)
        with "2.prems" show ?thesis
          by (simp only: unfold dp sat option.case sum.case sum.distinct)
      next
        case body: (Inr b)
        obtain st1 v where b: "b = (st1, v)" by (cases b)
        have inner: "set (packageNeedBump st) \<subseteq> set (packageNeedBump st1)"
          using body b "2.IH"(2)[OF dp sat]
          by (auto split: if_splits option.splits sum.splits MinVersionResult.splits)
        show ?thesis
        proof (cases "saveVersion (depVersions st1) (dep_name d) v (monoRepo dp)")
          case (Inl e)
          with "2.prems" show ?thesis
            by (simp only: unfold dp sat body b option.case sum.case prod.case sum.distinct)
        next
          case save: (Inr dv)
          from "2.prems" have rest: "scanDeps sv bp ds (st1\<lparr>depVersions := dv\<rparr>) = Inr st'"
            by (simp only: unfold dp sat body b save option.case sum.case prod.case)
          from "2.IH"(3)[OF dp sat body b[symmetric] save rest] inner
          show ?thesis by auto
        qed
      qed
    qed
  qed
qed

termination scanDeps
proof (relation "inv_image (less_than <*lex*> less_than)
         (\<lambda>(sv, bp, ds, st). (card (snd ` set bp - set (packageNeedBump st)), length ds))",
       goal_cases)
  case 1
  show ?case by (intro wf_inv_image wf_lex_prod wf_less_than)
next
  case (2 sv bp d ds st)
  then show ?case by simp
next
  case (3 sv bp d ds st dp sat)
  from \<open>map_of bp (dep_name d) = Some dp\<close> have "dp \<in> snd ` set bp"
    by (force dest: map_of_SomeD)
  with \<open>dp \<notin> set (packageNeedBump st)\<close>
  have "snd ` set bp - set (packageNeedBump st @ [dp]) \<subset>
        snd ` set bp - set (packageNeedBump st)"
    by auto
  then have "card (snd ` set bp - set (packageNeedBump st @ [dp])) <
        card (snd ` set bp - set (packageNeedBump st))"
    by (intro psubset_card_mono) auto
  then show ?case by simp
next
  case (4 sv bp d ds st dp sat b st1 v dv)
  let ?st = "st\<lparr>packageNeedBump := packageNeedBump st @ [dp], scanLog := scanLog st @ [dp]\<rparr>"
  consider
    (descend) "scanDeps_dom (sv, bp, combinedDependencies dp, ?st)"
      "scanDeps sv bp (combinedDependencies dp) ?st = Inr st1"
    | (local) "packageNeedBump st1 = packageNeedBump st"
    using 4
    by (auto split: if_splits option.splits sum.splits MinVersionResult.splits)
  then have "set (packageNeedBump st) \<subseteq> set (packageNeedBump st1)"
  proof cases
    case descend
    from scanDeps_mono_dom[OF descend] show ?thesis by simp
  next
    case local
    then show ?thesis by simp
  qed
  then have "card (snd ` set bp - set (packageNeedBump st1)) \<le>
        card (snd ` set bp - set (packageNeedBump st))"
    by (auto intro!: card_mono)
  then show ?case by auto
qed

text \<open>
  With that, the recursion is well-founded at every argument: \<open>scanDeps_dom\<close>, the
  accessible part of the call relation of \<open>scanDeps\<close>, holds everywhere.
\<close>

lemma scanDeps_total: "scanDeps_dom (sv, bp, ds, st)"
  by (induction sv bp ds st rule: scanDeps.induct) (auto intro: scanDeps.domintros)

definition checkPackageNeedBump ::
  "Semver \<Rightarrow> (string \<times> Package) list \<Rightarrow> Package \<Rightarrow> TraversalState
     \<Rightarrow> TraversalState result" where
  "checkPackageNeedBump sv buildPackages pkg st =
     scanDeps sv buildPackages (combinedDependencies pkg) (st\<lparr>scanLog := scanLog st @ [pkg]\<rparr>)"

text \<open>
  \<^verbatim>\<open>checkMonoRepoNeedBump\<close> runs over \<^verbatim>\<open>repo.packages.packages\<close>, the list \<open>pkgs\<close>; an
  exception leaves the \<^verbatim>\<open>forEach\<close>.
\<close>

fun checkMonoRepoNeedBump ::
  "Semver \<Rightarrow> (string \<times> Package) list \<Rightarrow> MonoRepoKind \<Rightarrow> Package list \<Rightarrow> TraversalState
     \<Rightarrow> TraversalState result" where
  "checkMonoRepoNeedBump sv buildPackages checkRepo [] st = Inr st"
| "checkMonoRepoNeedBump sv buildPackages checkRepo (pkg # pkgs) st =
     (if map_option kind (monoRepo pkg) \<noteq> Some checkRepo
      then checkMonoRepoNeedBump sv buildPackages checkRepo pkgs st
      else (case checkPackageNeedBump sv buildPackages pkg st of
              Inl x \<Rightarrow> Inl x
            | Inr st' \<Rightarrow> checkMonoRepoNeedBump sv buildPackages checkRepo pkgs st'))"

text \<open>The variables of \<^verbatim>\<open>main\<close> as lines 139 to 143 initialise them.\<close>

definition initialState :: TraversalState where
  "initialState =
     \<lparr>packageNeedBump = [], serverNeedBump = False, depVersions = [], scanLog = []\<rparr>"

text \<open>
  Lines 176 to 180: the wave over the Client group, then, when \<^verbatim>\<open>serverNeedBump\<close> is set,
  the wave over the Server group.
\<close>

definition bumpTraversal ::
  "Semver \<Rightarrow> (string \<times> Package) list \<Rightarrow> Package list \<Rightarrow> TraversalState
     \<Rightarrow> TraversalState result" where
  "bumpTraversal sv buildPackages pkgs st =
     (case checkMonoRepoNeedBump sv buildPackages Client pkgs st of
        Inl x \<Rightarrow> Inl x
      | Inr st1 \<Rightarrow>
          if serverNeedBump st1
          then checkMonoRepoNeedBump sv buildPackages Server pkgs st1
          else Inr st1)"

text \<open>
  Modelled from the spec: \<^verbatim>\<open>repo.createPackageMap()\<close> belongs to \<^verbatim>\<open>FluidRepoBase\<close>, which is
  not among the sources. By the spec's \<^verbatim>\<open>packageByName\<close> it finds a package of the registry
  by its name, and names are unique in a registry.
\<close>

definition createPackageMap :: "Package list \<Rightarrow> (string \<times> Package) list" where
  "createPackageMap pkgs = map (\<lambda>p. (name p, p)) pkgs"

subsection \<open>collectVersions (lines 83 to 93)\<close>

fun saveVersions :: "VersionMap \<Rightarrow> Package list \<Rightarrow> error + VersionMap" where
  "saveVersions versions [] = Inr versions"
| "saveVersions versions (pkg # pkgs) =
     (case saveVersion versions (name pkg) (version pkg) (monoRepo pkg) of
        Inl e \<Rightarrow> Inl e
      | Inr versions' \<Rightarrow> saveVersions versions' pkgs)"

definition collectVersions :: "Package list \<Rightarrow> Package \<Rightarrow> Package \<Rightarrow> error + VersionMap" where
  "collectVersions pkgs generatorPackage templatePackage =
     (case saveVersions [] pkgs of
        Inl e \<Rightarrow> Inl e
      | Inr versions \<Rightarrow>
         (case saveVersion versions (name generatorPackage) (version generatorPackage) None of
            Inl e \<Rightarrow> Inl e
          | Inr versions' \<Rightarrow>
              saveVersion versions' (name templatePackage) (version templatePackage) None))"

subsection \<open>main, from the package scan on (lines 136 to 236)\<close>

text \<open>
  The phase of \<^verbatim>\<open>main\<close> that decides (lines 139 to 192): the traversal, the two
  \<^verbatim>\<open>saveVersion\<close> calls for the generator packages, \<^verbatim>\<open>collectVersions\<close>, and the report of
  the release versions, which reads \<^verbatim>\<open>depVersions[name].padStart\<close> for every key of
  \<^verbatim>\<open>oldVersions\<close> and so throws a \<^verbatim>\<open>TypeError\<close> when \<^verbatim>\<open>depVersions\<close> lacks one of them.
  Its result is the traversal state (with the final \<^verbatim>\<open>depVersions\<close>) and \<^verbatim>\<open>oldVersions\<close>.
\<close>

definition decisionPhase ::
  "Semver \<Rightarrow> Package list \<Rightarrow> Package \<Rightarrow> Package \<Rightarrow> error + (TraversalState \<times> VersionMap)" where
  "decisionPhase sv pkgs generatorPackage templatePackage =
     (case bumpTraversal sv (createPackageMap pkgs) pkgs initialState of
        Inl (e, st) \<Rightarrow> Inl e
      | Inr st \<Rightarrow>
         (case saveVersion (depVersions st) (name generatorPackage)
                 (version generatorPackage) None of
            Inl e \<Rightarrow> Inl e
          | Inr dv1 \<Rightarrow>
             (case saveVersion dv1 (name templatePackage) (version templatePackage) None of
                Inl e \<Rightarrow> Inl e
              | Inr dv2 \<Rightarrow>
                 (case collectVersions pkgs generatorPackage templatePackage of
                    Inl e \<Rightarrow> Inl e
                  | Inr oldVersions \<Rightarrow>
                      if list_all (\<lambda>(k, v). map_of dv2 k \<noteq> None) oldVersions
                      then Inr (st\<lparr>depVersions := dv2\<rparr>, oldVersions)
                      else Inl TypeError))))"

text \<open>
  The external commands that \<^verbatim>\<open>main\<close> runs through \<^verbatim>\<open>execWithErrorAsync\<close> and
  \<^verbatim>\<open>savePackageJson\<close>, by what they act on: the lerna bump of a mono-repo (\<^verbatim>\<open>bumpMonoRepo\<close>),
  \<^verbatim>\<open>npm version\<close> in the directory of a package of \<^verbatim>\<open>packageNeedBump\<close>, and the three steps of
  \<^verbatim>\<open>bumpGeneratorFluid\<close>. The command lines themselves and what the commands answer are
  not modelled; \<^verbatim>\<open>execWithErrorAsync\<close> is not among the sources.
\<close>

datatype ExternalCommand =
    BumpMonoRepo MonoRepoKind
  | NpmVersion Package
  | SaveTemplatePackageJson
  | NpmVersionTemplate
  | NpmVersionGenerator

definition bumpCommands :: "TraversalState \<Rightarrow> ExternalCommand list" where
  "bumpCommands st =
     [BumpMonoRepo Client]
     @ (if serverNeedBump st then [BumpMonoRepo Server] else [])
     @ map NpmVersion (packageNeedBump st)
     @ [SaveTemplatePackageJson, NpmVersionTemplate, NpmVersionGenerator]"

text \<open>
  \<open>main\<close> returns the commands it has run and the exception that ended it, if any. The
  registry and the generator packages as they are after the reloads of lines 220, 225 and
  226 come from outside: \<open>pkgs'\<close>, \<open>generatorPackage'\<close>, \<open>templatePackage'\<close>. The last report
  (lines 228 to 236) reads \<^verbatim>\<open>oldVersions[name].padStart\<close> for every key of \<^verbatim>\<open>newVersions\<close>
  whose value differs from the old one.
\<close>

definition main ::
  "Semver \<Rightarrow> Package list \<Rightarrow> Package \<Rightarrow> Package \<Rightarrow> Package list \<Rightarrow> Package \<Rightarrow> Package
     \<Rightarrow> ExternalCommand list \<times> error option" where
  "main sv pkgs generatorPackage templatePackage pkgs' generatorPackage' templatePackage' =
     (case decisionPhase sv pkgs generatorPackage templatePackage of
        Inl e \<Rightarrow> ([], Some e)
      | Inr (st, oldVersions) \<Rightarrow>
         (case collectVersions pkgs' generatorPackage' templatePackage' of
            Inl e \<Rightarrow> (bumpCommands st, Some e)
          | Inr newVersions \<Rightarrow>
              if list_all (\<lambda>(k, v). if map_of oldVersions k \<noteq> Some v
                                     then map_of oldVersions k \<noteq> None else True)
                   newVersions
              then (bumpCommands st, None)
              else (bumpCommands st, Some TypeError)))"

subsection \<open>The runs of the loop as a relation\<close>

text \<open>
  \<open>scan sv bp ds st r\<close> holds when the loop over \<open>ds\<close>, started in \<open>st\<close>, ends with \<open>r\<close>. It
  has one rule for each way through the body of the loop, and serves the proofs: a
  property of all runs is shown by induction over these rules. \<open>enter p st\<close> is the state
  in which the scan of a package newly added to the set starts; \<open>localEdge\<close> gives the
  state and the version to save for an edge that is handled without a recursive call.
\<close>

definition enter :: "Package \<Rightarrow> TraversalState \<Rightarrow> TraversalState" where
  "enter p st = st\<lparr>packageNeedBump := packageNeedBump st @ [p], scanLog := scanLog st @ [p]\<rparr>"

definition localEdge ::
  "Semver \<Rightarrow> Dependency \<Rightarrow> Package \<Rightarrow> bool \<Rightarrow> TraversalState \<Rightarrow> (TraversalState \<times> string) option" where
  "localEdge sv d dp sat st =
     (if sat then
        (case monoRepo dp of
           None \<Rightarrow> if dp \<in> set (packageNeedBump st) then Some (st, version dp) else None
         | Some m \<Rightarrow>
             Some (if kind m = Server then st\<lparr>serverNeedBump := True\<rparr> else st, version dp))
      else
        (case minVersion sv (dep_range d) of
           SemVer mv \<Rightarrow> Some (st, mv)
         | _ \<Rightarrow> None))"

inductive scan ::
  "Semver \<Rightarrow> (string \<times> Package) list \<Rightarrow> Dependency list \<Rightarrow> TraversalState
     \<Rightarrow> TraversalState result \<Rightarrow> bool"
  for sv :: Semver and bp :: "(string \<times> Package) list" where
  Done: "scan sv bp [] st (Inr st)"
| Unresolved:
    "map_of bp (dep_name d) = None \<Longrightarrow> scan sv bp ds st r \<Longrightarrow> scan sv bp (d # ds) st r"
| SatThrows:
    "map_of bp (dep_name d) = Some dp \<Longrightarrow> satisfies sv (version dp) (dep_range d) = None
     \<Longrightarrow> scan sv bp (d # ds) st (Inl (MalformedRange, st))"
| MinThrows:
    "map_of bp (dep_name d) = Some dp \<Longrightarrow> satisfies sv (version dp) (dep_range d) = Some False
     \<Longrightarrow> minVersion sv (dep_range d) = Throws
     \<Longrightarrow> scan sv bp (d # ds) st (Inl (MalformedRange, st))"
| MinNull:
    "map_of bp (dep_name d) = Some dp \<Longrightarrow> satisfies sv (version dp) (dep_range d) = Some False
     \<Longrightarrow> minVersion sv (dep_range d) = Null
     \<Longrightarrow> scan sv bp (d # ds) st (Inl (TypeError, st))"
| LocalSaveErr:
    "map_of bp (dep_name d) = Some dp \<Longrightarrow> satisfies sv (version dp) (dep_range d) = Some sat
     \<Longrightarrow> localEdge sv d dp sat st = Some (st1, v)
     \<Longrightarrow> saveVersion (depVersions st1) (dep_name d) v (monoRepo dp) = Inl e
     \<Longrightarrow> scan sv bp (d # ds) st (Inl (e, st1))"
| Local:
    "map_of bp (dep_name d) = Some dp \<Longrightarrow> satisfies sv (version dp) (dep_range d) = Some sat
     \<Longrightarrow> localEdge sv d dp sat st = Some (st1, v)
     \<Longrightarrow> saveVersion (depVersions st1) (dep_name d) v (monoRepo dp) = Inr dv
     \<Longrightarrow> scan sv bp ds (st1\<lparr>depVersions := dv\<rparr>) r
     \<Longrightarrow> scan sv bp (d # ds) st r"
| DescendErr:
    "map_of bp (dep_name d) = Some dp \<Longrightarrow> satisfies sv (version dp) (dep_range d) = Some True
     \<Longrightarrow> monoRepo dp = None \<Longrightarrow> dp \<notin> set (packageNeedBump st)
     \<Longrightarrow> scan sv bp (combinedDependencies dp) (enter dp st) (Inl x)
     \<Longrightarrow> scan sv bp (d # ds) st (Inl x)"
| DescendSaveErr:
    "map_of bp (dep_name d) = Some dp \<Longrightarrow> satisfies sv (version dp) (dep_range d) = Some True
     \<Longrightarrow> monoRepo dp = None \<Longrightarrow> dp \<notin> set (packageNeedBump st)
     \<Longrightarrow> scan sv bp (combinedDependencies dp) (enter dp st) (Inr st1)
     \<Longrightarrow> saveVersion (depVersions st1) (dep_name d) (version dp) None = Inl e
     \<Longrightarrow> scan sv bp (d # ds) st (Inl (e, st1))"
| Descend:
    "map_of bp (dep_name d) = Some dp \<Longrightarrow> satisfies sv (version dp) (dep_range d) = Some True
     \<Longrightarrow> monoRepo dp = None \<Longrightarrow> dp \<notin> set (packageNeedBump st)
     \<Longrightarrow> scan sv bp (combinedDependencies dp) (enter dp st) (Inr st1)
     \<Longrightarrow> saveVersion (depVersions st1) (dep_name d) (version dp) None = Inr dv
     \<Longrightarrow> scan sv bp ds (st1\<lparr>depVersions := dv\<rparr>) r
     \<Longrightarrow> scan sv bp (d # ds) st r"

definition finalState :: "TraversalState result \<Rightarrow> TraversalState" where
  "finalState r = (case r of Inl (e, st) \<Rightarrow> st | Inr st \<Rightarrow> st)"

subsection \<open>The dependency graph\<close>

text \<open>
  \<open>satTarget sv bp ds q\<close>: one of the dependencies \<open>ds\<close> is resolved by \<open>buildPackages\<close> to
  the package \<open>q\<close>, and the current version of \<open>q\<close> satisfies its range. \<open>satEdge sv bp p q\<close>:
  the package \<open>p\<close> declares such a dependency. \<open>memberOf k p\<close>: \<open>p\<close> belongs to the
  mono-repo of kind \<open>k\<close>, the test of \<^verbatim>\<open>checkMonoRepoNeedBump\<close>.
\<close>

definition satTarget ::
  "Semver \<Rightarrow> (string \<times> Package) list \<Rightarrow> Dependency list \<Rightarrow> Package \<Rightarrow> bool" where
  "satTarget sv bp ds q =
     list_ex (\<lambda>d. map_of bp (dep_name d) = Some q
                 \<and> satisfies sv (version q) (dep_range d) = Some True) ds"

definition satEdge :: "Semver \<Rightarrow> (string \<times> Package) list \<Rightarrow> Package \<Rightarrow> Package \<Rightarrow> bool" where
  "satEdge sv bp p q = satTarget sv bp (combinedDependencies p) q"

definition memberOf :: "MonoRepoKind \<Rightarrow> Package \<Rightarrow> bool" where
  "memberOf k p = (map_option kind (monoRepo p) = Some k)"

subsection \<open>Invariants of the traversal\<close>

text \<open>
  \<open>logInv\<close>: neither list repeats a package, the packages of the set have no mono-repo,
  and a package without a mono-repo is only scanned once it is in the set. \<open>groupLog\<close> is
  the part of the log made of members of mono-repos, which are the packages that
  \<^verbatim>\<open>checkMonoRepoNeedBump\<close> passes to \<^verbatim>\<open>checkPackageNeedBump\<close>.
\<close>

definition logInv :: "TraversalState \<Rightarrow> bool" where
  "logInv st =
     (distinct (packageNeedBump st) \<and> distinct (scanLog st)
      \<and> list_all (\<lambda>p. monoRepo p = None) (packageNeedBump st)
      \<and> list_all (\<lambda>p. monoRepo p \<noteq> None \<or> p \<in> set (packageNeedBump st)) (scanLog st))"

definition groupLog :: "TraversalState \<Rightarrow> Package list" where
  "groupLog st = filter (\<lambda>p. monoRepo p \<noteq> None) (scanLog st)"

text \<open>
  \<open>covered sv bp st ds\<close>: every satisfied edge of the list \<open>ds\<close> has had its effect on
  \<open>st\<close>, that is, its target is in the set when it has no mono-repo, and the flag is set
  when it is a member of the Server group. \<open>closedFrom sv bp st st'\<close>: the dependencies
  of every package that joined the set between \<open>st\<close> and \<open>st'\<close> are covered. \<open>reach\<close> is
  the set of packages to which a path of satisfied edges leads from a target of \<open>ds\<close>.
\<close>

definition covered ::
  "Semver \<Rightarrow> (string \<times> Package) list \<Rightarrow> TraversalState \<Rightarrow> Dependency list \<Rightarrow> bool" where
  "covered sv bp st ds =
     (\<forall>q. satTarget sv bp ds q \<longrightarrow>
        (case monoRepo q of
           None \<Rightarrow> q \<in> set (packageNeedBump st)
         | Some m \<Rightarrow> kind m = Server \<longrightarrow> serverNeedBump st))"

definition closedFrom ::
  "Semver \<Rightarrow> (string \<times> Package) list \<Rightarrow> TraversalState \<Rightarrow> TraversalState \<Rightarrow> bool" where
  "closedFrom sv bp st st' =
     (\<forall>p \<in> set (packageNeedBump st') - set (packageNeedBump st).
        covered sv bp st' (combinedDependencies p))"

definition reach :: "Semver \<Rightarrow> (string \<times> Package) list \<Rightarrow> Dependency list \<Rightarrow> Package set" where
  "reach sv bp ds = {q. \<exists>t. satTarget sv bp ds t \<and> (satEdge sv bp)\<^sup>*\<^sup>* t q}"

text \<open>
  \<open>bumpRoots pkgs st r\<close>: \<open>r\<close> is a package on which a wave calls
  \<^verbatim>\<open>checkPackageNeedBump\<close>, a member of the Client group or, when the flag is set, of the
  Server group.
\<close>

definition bumpRoots :: "Package list \<Rightarrow> TraversalState \<Rightarrow> Package \<Rightarrow> bool" where
  "bumpRoots pkgs st r =
     (r \<in> set pkgs \<and> (memberOf Client r \<or> (serverNeedBump st \<and> memberOf Server r)))"

subsection \<open>Data for the examples\<close>

text \<open>
  A finite table in the place of the semver library: the pairs of a version and a range
  that it satisfies, and the minimum version of some ranges (\<^verbatim>\<open>null\<close> for the others).
\<close>

definition tableSemver :: "(string \<times> string) list \<Rightarrow> (string \<times> string) list \<Rightarrow> Semver" where
  "tableSemver sat mins =
     \<lparr>satisfies = (\<lambda>v r. Some ((v, r) \<in> set sat)),
      minVersion = (\<lambda>r. case map_of mins r of None \<Rightarrow> Null | Some mv \<Rightarrow> SemVer mv)\<rparr>"

definition caretSemver :: Semver where
  "caretSemver =
     tableSemver [(''1.0.0'', ''^1.0.0''), (''1.2.0'', ''^1.0.0''), (''2.0.0'', ''^2.0.0'')]
       [(''^1.0.0'', ''1.0.0''), (''^2.0.0'', ''2.0.0'')]"

definition clientRepo :: MonoRepo where
  "clientRepo = \<lparr>kind = Client\<rparr>"

definition serverRepo :: MonoRepo where
  "serverRepo = \<lparr>kind = Server\<rparr>"

definition dependsOn :: "string \<Rightarrow> string \<Rightarrow> Dependency" where
  "dependsOn nm rng = \<lparr>dep_name = nm, dep_range = rng, dev = False\<rparr>"

text \<open>The registry of the spec's first example scenario: core, utils and tool.\<close>

definition core :: Package where
  "core = \<lparr>name = ''core'', version = ''1.2.0'', combinedDependencies = [],
            monoRepo = Some clientRepo\<rparr>"

definition utils :: Package where
  "utils = \<lparr>name = ''utils'', version = ''1.2.0'',
             combinedDependencies = [dependsOn ''core'' ''^1.0.0''],
             monoRepo = Some clientRepo\<rparr>"

definition tool :: Package where
  "tool = \<lparr>name = ''tool'', version = ''0.5.0'',
            combinedDependencies = [dependsOn ''core'' ''^1.0.0''], monoRepo = None\<rparr>"

definition toolRegistry :: "Package list" where
  "toolRegistry = [core, utils, tool]"

text \<open>
  A registry with both groups: a Client package that depends on a Server package, and a
  second Server package that depends on a standalone package.
\<close>

definition clientPkg :: Package where
  "clientPkg = \<lparr>name = ''client-pkg'', version = ''1.0.0'',
                 combinedDependencies = [dependsOn ''server-lib'' ''^2.0.0''],
                 monoRepo = Some clientRepo\<rparr>"

definition serverLib :: Package where
  "serverLib = \<lparr>name = ''server-lib'', version = ''2.0.0'', combinedDependencies = [],
                 monoRepo = Some serverRepo\<rparr>"

definition serverApp :: Package where
  "serverApp = \<lparr>name = ''server-app'', version = ''2.0.0'',
                 combinedDependencies = [dependsOn ''helper'' ''^1.0.0''],
                 monoRepo = Some serverRepo\<rparr>"

definition helper :: Package where
  "helper = \<lparr>name = ''helper'', version = ''1.0.0'', combinedDependencies = [],
              monoRepo = None\<rparr>"

definition serverRegistry :: "Package list" where
  "serverRegistry = [clientPkg, serverLib, serverApp, helper]"

text \<open>A registry with a cycle: ping and pong depend on each other.\<close>

definition app :: Package where
  "app = \<lparr>name = ''app'', version = ''1.0.0'',
           combinedDependencies = [dependsOn ''ping'' ''^1.0.0''],
           monoRepo = Some clientRepo\<rparr>"

definition ping :: Package where
  "ping = \<lparr>name = ''ping'', version = ''1.0.0'',
            combinedDependencies = [dependsOn ''pong'' ''^1.0.0''], monoRepo = None\<rparr>"

definition pong :: Package where
  "pong = \<lparr>name = ''pong'', version = ''1.0.0'',
            combinedDependencies = [dependsOn ''ping'' ''^1.0.0''], monoRepo = None\<rparr>"

definition cycleRegistry :: "Package list" where
  "cycleRegistry = [app, ping, pong]"

text \<open>
  Registries with an edge that is not satisfied: the range is \<^verbatim>\<open>^1.0.0\<close> and the
  dependency is at 2.0.0. In the first the dependency is standalone, in the second it is a
  member of the Client group, whose version another edge has recorded before.
\<close>

definition legacyUser :: Package where
  "legacyUser = \<lparr>name = ''legacy-user'', version = ''2.0.0'',
                  combinedDependencies = [dependsOn ''legacy'' ''^1.0.0''],
                  monoRepo = Some clientRepo\<rparr>"

definition legacy :: Package where
  "legacy = \<lparr>name = ''legacy'', version = ''2.0.0'', combinedDependencies = [],
              monoRepo = None\<rparr>"

definition legacyRegistry :: "Package list" where
  "legacyRegistry = [legacyUser, legacy]"

definition shell :: Package where
  "shell = \<lparr>name = ''shell'', version = ''2.0.0'',
             combinedDependencies = [dependsOn ''kernel'' ''^2.0.0'', dependsOn ''driver'' ''^1.0.0''],
             monoRepo = Some clientRepo\<rparr>"

definition kernel :: Package where
  "kernel = \<lparr>name = ''kernel'', version = ''2.0.0'', combinedDependencies = [],
              monoRepo = Some clientRepo\<rparr>"

definition driver :: Package where
  "driver = \<lparr>name = ''driver'', version = ''2.0.0'', combinedDependencies = [],
              monoRepo = Some clientRepo\<rparr>"

definition pinnedRegistry :: "Package list" where
  "pinnedRegistry = [shell, kernel, driver]"

text \<open>The two generator packages that \<^verbatim>\<open>main\<close> loads at lines 183 and 184.\<close>

definition generatorPkg :: Package where
  "generatorPkg = \<lparr>name = ''generator-fluid'', version = ''2.0.0'',
                    combinedDependencies = [], monoRepo = None\<rparr>"

definition templatePkg :: Package where
  "templatePkg = \<lparr>name = ''template'', version = ''2.0.0'',
                   combinedDependencies = [], monoRepo = None\<rparr>"

lemmas example_defs =
  caretSemver_def tableSemver_def clientRepo_def serverRepo_def dependsOn_def
  core_def utils_def tool_def toolRegistry_def
  clientPkg_def serverLib_def serverApp_def helper_def serverRegistry_def
  app_def ping_def pong_def cycleRegistry_def
  legacyUser_def legacy_def legacyRegistry_def
  shell_def kernel_def driver_def pinnedRegistry_def
  generatorPkg_def templatePkg_def

lemmas traversal_defs =
  bumpTraversal_def checkPackageNeedBump_def createPackageMap_def initialState_def
  saveVersion_def startsWith_def

section \<open>Properties\<close>

subsection \<open>saveVersion\<close>

lemma startsWith_example:
  "startsWith ''@fluid-example/version-test-1'' ''@fluid-example/version-test''"
  by (simp add: startsWith_def)

lemma startsWith_short: "length nm < 27 \<Longrightarrow> \<not> startsWith nm ''@fluid-example/version-test''"
  by (auto simp: startsWith_def)

text \<open>
  C5, as the spec states it, fails: a member of a group whose name starts with
  \<^verbatim>\<open>@fluid-example/version-test\<close> is skipped before the group key is looked at, and a group
  key that holds the empty string counts as not set, so that in both cases a different
  version is accepted without an error.
\<close>

theorem saveVersion_group_conflict_counterexample:
  "saveVersion [(''Client'', ''1.0.0'')] ''@fluid-example/version-test-1'' ''2.0.0''
      (Some clientRepo) = Inr [(''Client'', ''1.0.0'')]
   \<and> saveVersion [(''Client'', [])] ''core'' ''2.0.0'' (Some clientRepo)
      = Inr [(''Client'', ''2.0.0'')]"
  by (simp add: saveVersion_def startsWith_def clientRepo_def)

text \<open>
  C5, amended: for a member of a group whose name does not start with
  \<^verbatim>\<open>@fluid-example/version-test\<close>, recording a version while the group key holds a different,
  non-empty version fails with the error that names the package and the new version; and
  for every member of a group, recording the version that the group key holds already
  succeeds and leaves the map as it is.
\<close>

theorem saveVersion_group_consistency:
  "(\<not> startsWith nm ''@fluid-example/version-test''
      \<and> map_of versions (kindName (kind m)) = Some old \<and> old \<noteq> [] \<and> old \<noteq> v
      \<longrightarrow> saveVersion versions nm v (Some m) = Inl (InconsistentVersion nm v))
   \<and> (map_of versions (kindName (kind m)) = Some v
      \<longrightarrow> saveVersion versions nm v (Some m) = Inr versions)"
  by (auto simp: saveVersion_def update_triv)

theorem saveVersion_group_consistency_witness:
  "saveVersion [(''Client'', ''1.0.0'')] ''core'' ''2.0.0'' (Some clientRepo)
     = Inl (InconsistentVersion ''core'' ''2.0.0'')
   \<and> saveVersion [(''Client'', ''1.0.0'')] ''core'' ''1.0.0'' (Some clientRepo)
     = Inr [(''Client'', ''1.0.0'')]"
proof -
  have short: "\<not> startsWith ''core'' ''@fluid-example/version-test''"
    by (rule startsWith_short) simp
  have held: "map_of [(''Client'', ''1.0.0'')] (kindName (kind clientRepo)) = Some ''1.0.0''"
    by (simp add: clientRepo_def)
  from saveVersion_group_consistency
         [of "''core''" "[(''Client'', ''1.0.0'')]" clientRepo "''1.0.0''" "''2.0.0''"]
       short held
  have first: "saveVersion [(''Client'', ''1.0.0'')] ''core'' ''2.0.0'' (Some clientRepo)
     = Inl (InconsistentVersion ''core'' ''2.0.0'')"
    by simp
  from saveVersion_group_consistency
         [of "''core''" "[(''Client'', ''1.0.0'')]" clientRepo "''1.0.0''" "''1.0.0''"]
       held
  have second: "saveVersion [(''Client'', ''1.0.0'')] ''core'' ''1.0.0'' (Some clientRepo)
     = Inr [(''Client'', ''1.0.0'')]"
    by simp
  from first second show ?thesis by simp
qed

text \<open>
  C6, as the spec states it, fails: for a package without a mono-repo \<^verbatim>\<open>saveVersion\<close>
  assigns \<^verbatim>\<open>versions[name] = version\<close> without reading the old value. Recording
  \<^verbatim>\<open>tool\<close> at 2.0.0 over 1.0.0 returns the map with the new version and no error.
\<close>

theorem saveVersion_standalone_counterexample:
  "saveVersion [(''tool'', ''1.0.0'')] ''tool'' ''2.0.0'' None = Inr [(''tool'', ''2.0.0'')]"
  by (simp add: saveVersion_def)

text \<open>
  C6, amended: for every package without a mono-repo, recording never fails; it writes
  the version under the name of the package, in the place of whatever was recorded under
  that name before.
\<close>

theorem saveVersion_standalone_overwrites:
  "saveVersion versions nm v None = Inr (AList.update nm v versions)
   \<and> (\<exists>versions'. saveVersion versions nm v None = Inr versions'
         \<and> map_of versions' = (map_of versions)(nm \<mapsto> v))"
  by (simp add: saveVersion_def update_conv')

text \<open>
  C7, as the spec states it, fails for a package without a mono-repo: the test of the
  name comes after the test \<^verbatim>\<open>monoRepo === undefined\<close>, so a standalone package whose name
  starts with \<^verbatim>\<open>@fluid-example/version-test\<close> is written into the map.
\<close>

theorem saveVersion_exclusion_counterexample:
  "saveVersion [] ''@fluid-example/version-test-1'' ''1.0.0'' None
     = Inr [(''@fluid-example/version-test-1'', ''1.0.0'')]"
  by (simp add: saveVersion_def)

text \<open>
  C7, amended: for every package that is a member of a mono-repo and whose name starts
  with \<^verbatim>\<open>@fluid-example/version-test\<close>, recording returns the map as it was, without an
  error.
\<close>

theorem saveVersion_exclusion_group_member:
  "startsWith nm ''@fluid-example/version-test''
     \<Longrightarrow> saveVersion versions nm v (Some m) = Inr versions"
  by (simp add: saveVersion_def)

theorem saveVersion_exclusion_group_member_witness:
  "saveVersion [(''Client'', ''1.0.0'')] ''@fluid-example/version-test-1'' ''0.0.1''
     (Some clientRepo) = Inr [(''Client'', ''1.0.0'')]"
  using saveVersion_exclusion_group_member [OF startsWith_example] by simp

subsection \<open>The function and the relation\<close>

lemma scanDeps_scan: "scan sv bp ds st (scanDeps sv bp ds st)"
proof (induction sv bp ds st rule: scanDeps.induct)
  case (1 sv bp st)
  show ?case by (simp add: scan.Done)
next
  case (2 sv bp d ds st)
  show ?case
  proof (cases "map_of bp (dep_name d)")
    case None
    with "2.IH"(1) show ?thesis by (simp add: scan.Unresolved)
  next
    case dp: (Some dp)
    show ?thesis
    proof (cases "satisfies sv (version dp) (dep_range d)")
      case None
      with dp show ?thesis by (simp add: scan.SatThrows)
    next
      case sat: (Some sat)
      let ?inner = "scanDeps sv bp (combinedDependencies dp) (enter dp st)"
      let ?body = "(if sat
        then case monoRepo dp of
         None \<Rightarrow>
           if dp \<notin> set (packageNeedBump st)
           then case scanDeps sv bp (combinedDependencies dp)
                      (st\<lparr>packageNeedBump := packageNeedBump st @ [dp],
                            scanLog := scanLog st @ [dp]\<rparr>) of
                Inl x \<Rightarrow> Inl x | Inr st' \<Rightarrow> Inr (st', version dp)
           else Inr (st, version dp)
         | Some m \<Rightarrow>
             if kind m = Server
             then Inr (st\<lparr>serverNeedBump := True\<rparr>, version dp)
             else Inr (st, version dp)
        else case minVersion sv (dep_range d) of
         Throws \<Rightarrow> Inl (MalformedRange, st) | Null \<Rightarrow> Inl (TypeError, st)
         | SemVer mv \<Rightarrow> Inr (st, mv))"
      have unfold: "scanDeps sv bp (d # ds) st =
        (case ?body of Inl x \<Rightarrow> Inl x
         | Inr (st1, depVersion) \<Rightarrow>
            (case saveVersion (depVersions st1) (dep_name d) depVersion (monoRepo dp) of
               Inl e \<Rightarrow> Inl (e, st1)
             | Inr dv \<Rightarrow> scanDeps sv bp ds (st1\<lparr>depVersions := dv\<rparr>)))"
        by (simp only: scanDeps.simps dp sat option.case)
      consider
        (descend) "sat" "monoRepo dp = None" "dp \<notin> set (packageNeedBump st)"
          "?body = (case ?inner of Inl x \<Rightarrow> Inl x | Inr st' \<Rightarrow> Inr (st', version dp))"
        | (local) st1 v where "localEdge sv d dp sat st = Some (st1, v)" "?body = Inr (st1, v)"
        | (minThrows) "\<not> sat" "minVersion sv (dep_range d) = Throws"
            "?body = Inl (MalformedRange, st)"
        | (minNull) "\<not> sat" "minVersion sv (dep_range d) = Null" "?body = Inl (TypeError, st)"
        by (cases sat; cases "monoRepo dp"; cases "minVersion sv (dep_range d)";
            cases "dp \<in> set (packageNeedBump st)")
           (simp_all add: localEdge_def enter_def)
      then show ?thesis
      proof cases
        case descend
        have inner: "scan sv bp (combinedDependencies dp) (enter dp st) ?inner"
          using "2.IH"(2)[OF dp sat descend(1,2,3)] by (simp add: enter_def)
        show ?thesis
        proof (cases ?inner)
          case (Inl x)
          with inner descend dp sat unfold show ?thesis
            by (simp add: scan.DescendErr)
        next
          case inr: (Inr st1)
          have body: "?body = Inr (st1, version dp)" using descend(4) inr by simp
          show ?thesis
          proof (cases "saveVersion (depVersions st1) (dep_name d) (version dp) None")
            case (Inl e)
            with inner inr descend dp sat body unfold show ?thesis
              by (simp add: scan.DescendSaveErr)
          next
            case save: (Inr dv)
            have "scan sv bp ds (st1\<lparr>depVersions := dv\<rparr>)
                    (scanDeps sv bp ds (st1\<lparr>depVersions := dv\<rparr>))"
              using "2.IH"(3)[OF dp sat body refl] save descend(2) by simp
            with inner inr descend dp sat body unfold save show ?thesis
              by (simp add: scan.Descend)
          qed
        qed
      next
        case local
        show ?thesis
        proof (cases "saveVersion (depVersions st1) (dep_name d) v (monoRepo dp)")
          case (Inl e)
          with local dp sat unfold show ?thesis
            by (simp add: scan.LocalSaveErr)
        next
          case save: (Inr dv)
          have "scan sv bp ds (st1\<lparr>depVersions := dv\<rparr>)
                  (scanDeps sv bp ds (st1\<lparr>depVersions := dv\<rparr>))"
            using "2.IH"(3)[OF dp sat local(2) refl save] .
          with local dp sat unfold save show ?thesis
            by (simp add: scan.Local)
        qed
      next
        case minThrows
        with dp sat unfold show ?thesis by (simp add: scan.MinThrows)
      next
        case minNull
        with dp sat unfold show ?thesis by (simp add: scan.MinNull)
      qed
    qed
  qed
qed

subsection \<open>What a run of the loop preserves\<close>

lemma finalState_simps [simp]:
  "finalState (Inl (e, st)) = st" "finalState (Inr st) = st"
  by (simp_all add: finalState_def)

lemma localEdge_cases:
  assumes "localEdge sv d dp sat st = Some (st1, v)"
  obtains "st1 = st" | m where "monoRepo dp = Some m" "kind m = Server" "sat"
    "st1 = st\<lparr>serverNeedBump := True\<rparr>" "v = version dp"
  using assms
  by (auto simp: localEdge_def split: if_splits option.splits MinVersionResult.splits)

lemma logInv_updates [simp]:
  "logInv (st\<lparr>depVersions := dv\<rparr>) = logInv st"
  "logInv (st\<lparr>serverNeedBump := b\<rparr>) = logInv st"
  by (simp_all add: logInv_def)

lemma logInv_enter:
  "logInv st \<Longrightarrow> monoRepo dp = None \<Longrightarrow> dp \<notin> set (packageNeedBump st)
     \<Longrightarrow> logInv (enter dp st)"
  by (auto simp: logInv_def enter_def list_all_iff)

lemma scan_logInv: "scan sv bp ds st r \<Longrightarrow> logInv st \<Longrightarrow> logInv (finalState r)"
  by (induction rule: scan.induct)
     (auto elim!: localEdge_cases simp: logInv_enter)

lemma scan_groupLog: "scan sv bp ds st r \<Longrightarrow> groupLog (finalState r) = groupLog st"
  by (induction rule: scan.induct)
     (auto elim!: localEdge_cases simp: groupLog_def enter_def)

lemma scan_mono:
  "scan sv bp ds st r \<Longrightarrow>
     set (packageNeedBump st) \<subseteq> set (packageNeedBump (finalState r))
     \<and> set (scanLog st) \<subseteq> set (scanLog (finalState r))
     \<and> (serverNeedBump st \<longrightarrow> serverNeedBump (finalState r))"
  by (induction rule: scan.induct)
     (auto elim!: localEdge_cases simp: enter_def)

lemma groupLog_member: "monoRepo p \<noteq> None \<Longrightarrow> p \<in> set (groupLog st) \<longleftrightarrow> p \<in> set (scanLog st)"
  by (simp add: groupLog_def)

lemma memberOf_group: "memberOf k p \<Longrightarrow> monoRepo p \<noteq> None"
  by (auto simp: memberOf_def)

lemma logInv_root:
  "logInv st \<Longrightarrow> monoRepo p \<noteq> None \<Longrightarrow> p \<notin> set (scanLog st)
     \<Longrightarrow> logInv (st\<lparr>scanLog := scanLog st @ [p]\<rparr>)"
  by (auto simp: logInv_def list_all_iff)

lemma checkPackageNeedBump_logInv:
  assumes "logInv st" "monoRepo p \<noteq> None" "p \<notin> set (scanLog st)"
  shows "logInv (finalState (checkPackageNeedBump sv bp p st))"
  unfolding checkPackageNeedBump_def
  by (rule scan_logInv [OF scanDeps_scan logInv_root [OF assms]])

lemma checkPackageNeedBump_groupLog:
  "monoRepo p \<noteq> None \<Longrightarrow>
     groupLog (finalState (checkPackageNeedBump sv bp p st)) = groupLog st @ [p]"
  unfolding checkPackageNeedBump_def
  by (simp add: scan_groupLog [OF scanDeps_scan]) (simp add: groupLog_def)

lemma checkPackageNeedBump_mono:
  "set (packageNeedBump st) \<subseteq> set (packageNeedBump (finalState (checkPackageNeedBump sv bp p st)))
   \<and> set (scanLog st) \<subseteq> set (scanLog (finalState (checkPackageNeedBump sv bp p st)))
   \<and> p \<in> set (scanLog (finalState (checkPackageNeedBump sv bp p st)))
   \<and> (serverNeedBump st \<longrightarrow> serverNeedBump (finalState (checkPackageNeedBump sv bp p st)))"
  unfolding checkPackageNeedBump_def
  using scan_mono [OF scanDeps_scan [of sv bp "combinedDependencies p"
                     "st\<lparr>scanLog := scanLog st @ [p]\<rparr>"]]
  by auto

lemma wave_logInv:
  "logInv st \<Longrightarrow> distinct ps \<Longrightarrow> \<forall>p\<in>set ps. memberOf k p \<longrightarrow> p \<notin> set (scanLog st)
     \<Longrightarrow> logInv (finalState (checkMonoRepoNeedBump sv bp k ps st))
       \<and> set (groupLog (finalState (checkMonoRepoNeedBump sv bp k ps st)))
            \<subseteq> set (groupLog st) \<union> {p \<in> set ps. memberOf k p}"
proof (induction ps arbitrary: st)
  case Nil
  then show ?case by simp
next
  case (Cons p ps)
  show ?case
  proof (cases "memberOf k p")
    case False
    with Cons show ?thesis by (auto simp: memberOf_def)
  next
    case True
    then have grp: "monoRepo p \<noteq> None" by (rule memberOf_group)
    from Cons.prems True have fresh: "p \<notin> set (scanLog st)" by simp
    let ?r = "checkPackageNeedBump sv bp p st"
    have inv: "logInv (finalState ?r)"
      by (rule checkPackageNeedBump_logInv [OF Cons.prems(1) grp fresh])
    have log: "groupLog (finalState ?r) = groupLog st @ [p]"
      by (rule checkPackageNeedBump_groupLog [OF grp])
    show ?thesis
    proof (cases ?r)
      case (Inl x)
      with True inv log show ?thesis by (auto simp: memberOf_def)
    next
      case (Inr st')
      with inv log have inv': "logInv st'" and log': "groupLog st' = groupLog st @ [p]"
        by simp_all
      have fresh': "\<forall>q\<in>set ps. memberOf k q \<longrightarrow> q \<notin> set (scanLog st')"
      proof (intro ballI impI)
        fix q assume q: "q \<in> set ps" "memberOf k q"
        then have "monoRepo q \<noteq> None" by (simp add: memberOf_group)
        then have "q \<in> set (scanLog st') \<longleftrightarrow> q \<in> set (groupLog st) \<union> {p}"
          using groupLog_member [where p=q and st=st'] log' by simp
        moreover have "q \<noteq> p" using q Cons.prems(2) by auto
        moreover have "q \<notin> set (scanLog st)" using q Cons.prems(3) by simp
        ultimately show "q \<notin> set (scanLog st')"
          using groupLog_member [where p=q and st=st] \<open>monoRepo q \<noteq> None\<close> by simp
      qed
      from Cons.prems(2) have "distinct ps" by simp
      from Cons.IH [OF inv' this fresh'] log' True Inr
      show ?thesis by (auto simp: memberOf_def)
    qed
  qed
qed

lemma wave_mono:
  "set (packageNeedBump st)
     \<subseteq> set (packageNeedBump (finalState (checkMonoRepoNeedBump sv bp k ps st)))
   \<and> set (scanLog st) \<subseteq> set (scanLog (finalState (checkMonoRepoNeedBump sv bp k ps st)))
   \<and> (serverNeedBump st \<longrightarrow> serverNeedBump (finalState (checkMonoRepoNeedBump sv bp k ps st)))"
proof (induction ps arbitrary: st)
  case Nil
  show ?case by simp
next
  case (Cons p ps)
  show ?case
  proof (cases "memberOf k p")
    case False
    with Cons show ?thesis by (simp add: memberOf_def)
  next
    case True
    show ?thesis
    proof (cases "checkPackageNeedBump sv bp p st")
      case (Inl x)
      with True checkPackageNeedBump_mono [where st=st and sv=sv and bp=bp and p=p] show ?thesis
        by (simp add: memberOf_def)
    next
      case (Inr st')
      with True checkPackageNeedBump_mono [where st=st and sv=sv and bp=bp and p=p] Cons.IH [where st=st'] show ?thesis
        by (auto simp: memberOf_def)
    qed
  qed
qed


lemma logInv_initialState: "logInv initialState"
  by (simp add: logInv_def initialState_def)

lemma bumpTraversal_logInv:
  assumes "distinct pkgs"
  shows "logInv (finalState (bumpTraversal sv bp pkgs initialState))"
proof -
  let ?r1 = "checkMonoRepoNeedBump sv bp Client pkgs initialState"
  have fresh0: "\<forall>p\<in>set pkgs. memberOf Client p \<longrightarrow> p \<notin> set (scanLog initialState)"
    by (simp add: initialState_def)
  from wave_logInv [OF logInv_initialState assms fresh0, where sv=sv and bp=bp]
  have inv1: "logInv (finalState ?r1)"
    and log1: "set (groupLog (finalState ?r1)) \<subseteq> {p \<in> set pkgs. memberOf Client p}"
    by (simp_all add: groupLog_def initialState_def)
  show ?thesis
  proof (cases ?r1)
    case (Inl x)
    with inv1 show ?thesis by (simp add: bumpTraversal_def)
  next
    case (Inr st1)
    with inv1 log1 have inv: "logInv st1"
      and log: "set (groupLog st1) \<subseteq> {p \<in> set pkgs. memberOf Client p}" by simp_all
    have fresh: "\<forall>p\<in>set pkgs. memberOf Server p \<longrightarrow> p \<notin> set (scanLog st1)"
    proof (intro ballI impI)
      fix p assume p: "p \<in> set pkgs" "memberOf Server p"
      then have "\<not> memberOf Client p" by (auto simp: memberOf_def)
      with log have "p \<notin> set (groupLog st1)" by auto
      with groupLog_member [where p=p and st=st1] memberOf_group [OF p(2)]
      show "p \<notin> set (scanLog st1)" by simp
    qed
    from wave_logInv [OF inv assms fresh, where sv=sv and bp=bp] inv Inr
    show ?thesis by (simp add: bumpTraversal_def)
  qed
qed

subsection \<open>The set against the dependency graph\<close>

lemma satEdge_satTarget: "satEdge sv bp p q = satTarget sv bp (combinedDependencies p) q"
  by (simp add: satEdge_def)

lemma satTarget_Cons:
  "satTarget sv bp (d # ds) q \<longleftrightarrow>
     (map_of bp (dep_name d) = Some q \<and> satisfies sv (version q) (dep_range d) = Some True)
     \<or> satTarget sv bp ds q"
  by (simp add: satTarget_def)

lemma satTarget_Nil [simp]: "\<not> satTarget sv bp [] q"
  by (simp add: satTarget_def)

lemma reach_Cons: "reach sv bp ds \<subseteq> reach sv bp (d # ds)"
  by (auto simp: reach_def satTarget_Cons)

lemma reach_head:
  "map_of bp (dep_name d) = Some dp \<Longrightarrow> satisfies sv (version dp) (dep_range d) = Some True
     \<Longrightarrow> dp \<in> reach sv bp (d # ds)"
  by (auto simp: reach_def satTarget_Cons)

lemma reach_descend:
  assumes "map_of bp (dep_name d) = Some dp" "satisfies sv (version dp) (dep_range d) = Some True"
  shows "reach sv bp (combinedDependencies dp) \<subseteq> reach sv bp (d # ds)"
proof
  fix q assume "q \<in> reach sv bp (combinedDependencies dp)"
  then obtain t where t: "satEdge sv bp dp t" "(satEdge sv bp)\<^sup>*\<^sup>* t q"
    by (auto simp: reach_def satEdge_satTarget)
  then have "(satEdge sv bp)\<^sup>*\<^sup>* dp q" by (rule converse_rtranclp_into_rtranclp)
  with assms show "q \<in> reach sv bp (d # ds)"
    by (auto simp: reach_def satTarget_Cons)
qed

lemma scan_sound:
  "scan sv bp ds st r \<Longrightarrow>
     set (packageNeedBump (finalState r)) \<subseteq> set (packageNeedBump st) \<union> reach sv bp ds"
proof (induction rule: scan.induct)
  case (Unresolved d ds st r)
  with reach_Cons [of sv bp ds d] show ?case by blast
next
  case (LocalSaveErr d dp sat st st1 v e ds)
  then show ?case by (auto elim!: localEdge_cases)
next
  case (Local d dp sat st st1 v dv ds r)
  with reach_Cons [of sv bp ds d] show ?case by (auto elim!: localEdge_cases)
next
  case (DescendErr d dp st x ds)
  with reach_head [of bp d dp sv ds] reach_descend [of bp d dp sv ds] show ?case
    by (auto simp: enter_def)
next
  case (DescendSaveErr d dp st st1 e ds)
  with reach_head [of bp d dp sv ds] reach_descend [of bp d dp sv ds] show ?case
    by (auto simp: enter_def)
next
  case (Descend d dp st st1 dv ds r)
  with reach_head [of bp d dp sv ds] reach_descend [of bp d dp sv ds]
    reach_Cons [of sv bp ds d] show ?case
    by (auto simp: enter_def)
qed simp_all

lemma covered_mono:
  "covered sv bp st ds \<Longrightarrow> set (packageNeedBump st) \<subseteq> set (packageNeedBump st')
     \<Longrightarrow> (serverNeedBump st \<longrightarrow> serverNeedBump st') \<Longrightarrow> covered sv bp st' ds"
  by (auto simp: covered_def split: option.splits)

lemma covered_Nil [simp]: "covered sv bp st []"
  by (simp add: covered_def)

lemma covered_Cons:
  "covered sv bp st (d # ds) \<longleftrightarrow>
     covered sv bp st ds \<and>
     (\<forall>q. map_of bp (dep_name d) = Some q \<and> satisfies sv (version q) (dep_range d) = Some True
        \<longrightarrow> (case monoRepo q of
               None \<Rightarrow> q \<in> set (packageNeedBump st)
             | Some m \<Rightarrow> kind m = Server \<longrightarrow> serverNeedBump st))"
  by (auto simp: covered_def satTarget_Cons)

lemma scan_complete:
  "scan sv bp ds st r \<Longrightarrow> r = Inr st' \<Longrightarrow> covered sv bp st' ds \<and> closedFrom sv bp st st'"
proof (induction arbitrary: st' rule: scan.induct)
  case (Done st)
  then show ?case by (simp add: closedFrom_def)
next
  case (Unresolved d ds st r)
  then show ?case by (simp add: covered_Cons)
next
  case (Local d dp sat st st1 v dv ds r)
  from Local.IH [OF Local.prems]
  have cov: "covered sv bp st' ds" and cl: "closedFrom sv bp (st1\<lparr>depVersions := dv\<rparr>) st'"
    by simp_all
  from scan_mono [OF Local.hyps(5)] Local.prems
  have mono: "set (packageNeedBump st1) \<subseteq> set (packageNeedBump st')"
    "serverNeedBump st1 \<longrightarrow> serverNeedBump st'" by simp_all
  have same: "packageNeedBump st1 = packageNeedBump st"
    using Local.hyps(3) by (auto elim!: localEdge_cases)
  have head: "case monoRepo dp of None \<Rightarrow> sat \<longrightarrow> dp \<in> set (packageNeedBump st')
              | Some m \<Rightarrow> sat \<and> kind m = Server \<longrightarrow> serverNeedBump st'"
    using Local.hyps(3) mono
    by (auto simp: localEdge_def split: if_splits option.splits MinVersionResult.splits)
  from cov head Local.hyps(1,2) have "covered sv bp st' (d # ds)"
    by (auto simp: covered_Cons split: option.splits)
  moreover from cl same have "closedFrom sv bp st st'" by (simp add: closedFrom_def)
  ultimately show ?case by simp
next
  case (Descend d dp st st1 dv ds r)
  from Descend.IH(1) have cov1: "covered sv bp st1 (combinedDependencies dp)"
    and cl1: "closedFrom sv bp (enter dp st) st1" by simp_all
  from Descend.IH(2) [OF Descend.prems]
  have cov2: "covered sv bp st' ds" and cl2: "closedFrom sv bp (st1\<lparr>depVersions := dv\<rparr>) st'"
    by simp_all
  from scan_mono [OF Descend.hyps(5)]
  have mono1: "set (packageNeedBump st) \<union> {dp} \<subseteq> set (packageNeedBump st1)"
    by (simp add: enter_def)
  from scan_mono [OF Descend.hyps(7)] Descend.prems
  have mono2: "set (packageNeedBump st1) \<subseteq> set (packageNeedBump st')"
    "serverNeedBump st1 \<longrightarrow> serverNeedBump st'" by simp_all
  from cov2 mono1 mono2 Descend.hyps(1,2,3) have "covered sv bp st' (d # ds)"
    by (auto simp: covered_Cons)
  moreover have "closedFrom sv bp st st'"
    unfolding closedFrom_def
  proof
    fix p assume p: "p \<in> set (packageNeedBump st') - set (packageNeedBump st)"
    show "covered sv bp st' (combinedDependencies p)"
    proof (cases "p \<in> set (packageNeedBump st1)")
      case False
      with p cl2 show ?thesis by (simp add: closedFrom_def)
    next
      case True
      have "covered sv bp st1 (combinedDependencies p)"
      proof (cases "p = dp")
        case True
        with cov1 show ?thesis by simp
      next
        case False
        with True p cl1 show ?thesis by (simp add: closedFrom_def enter_def)
      qed
      then show ?thesis using mono2 by (rule covered_mono)
    qed
  qed
  ultimately show ?case by simp
qed simp_all

lemma reach_tranclp: "q \<in> reach sv bp (combinedDependencies p) \<Longrightarrow> (satEdge sv bp)\<^sup>+\<^sup>+ p q"
  by (auto simp: reach_def satEdge_satTarget [symmetric] intro: rtranclp_into_tranclp2)

lemma checkPackageNeedBump_sound:
  "set (packageNeedBump (finalState (checkPackageNeedBump sv bp p st)))
     \<subseteq> set (packageNeedBump st) \<union> {q. (satEdge sv bp)\<^sup>+\<^sup>+ p q}"
  unfolding checkPackageNeedBump_def
  using scan_sound [OF scanDeps_scan [of sv bp "combinedDependencies p"
                      "st\<lparr>scanLog := scanLog st @ [p]\<rparr>"]]
  by (auto dest: reach_tranclp)

lemma checkPackageNeedBump_complete:
  assumes "checkPackageNeedBump sv bp p st = Inr st'"
  shows "covered sv bp st' (combinedDependencies p) \<and> closedFrom sv bp st st'"
proof -
  let ?st = "st\<lparr>scanLog := scanLog st @ [p]\<rparr>"
  from assms have "scanDeps sv bp (combinedDependencies p) ?st = Inr st'"
    by (simp add: checkPackageNeedBump_def)
  from scan_complete [OF scanDeps_scan this]
  show ?thesis by (simp add: closedFrom_def)
qed

lemma closedFrom_trans:
  assumes "closedFrom sv bp st st1" "closedFrom sv bp st1 st2"
    and "set (packageNeedBump st1) \<subseteq> set (packageNeedBump st2)"
    and "serverNeedBump st1 \<longrightarrow> serverNeedBump st2"
  shows "closedFrom sv bp st st2"
  unfolding closedFrom_def
proof
  fix p assume p: "p \<in> set (packageNeedBump st2) - set (packageNeedBump st)"
  show "covered sv bp st2 (combinedDependencies p)"
  proof (cases "p \<in> set (packageNeedBump st1)")
    case True
    with p assms(1) have "covered sv bp st1 (combinedDependencies p)"
      by (simp add: closedFrom_def)
    then show ?thesis using assms(3,4) by (rule covered_mono)
  next
    case False
    with p assms(2) show ?thesis by (simp add: closedFrom_def)
  qed
qed

lemma wave_sound:
  "set (packageNeedBump (finalState (checkMonoRepoNeedBump sv bp k ps st)))
     \<subseteq> set (packageNeedBump st) \<union> {q. \<exists>p\<in>set ps. memberOf k p \<and> (satEdge sv bp)\<^sup>+\<^sup>+ p q}"
proof (induction ps arbitrary: st)
  case Nil
  show ?case by simp
next
  case (Cons p ps)
  show ?case
  proof (cases "memberOf k p")
    case False
    with Cons [of st] show ?thesis by (auto simp: memberOf_def)
  next
    case True
    note head = checkPackageNeedBump_sound [of sv bp p st]
    show ?thesis
    proof (cases "checkPackageNeedBump sv bp p st")
      case (Inl x)
      with True head show ?thesis by (auto simp: memberOf_def)
    next
      case (Inr st1)
      with True head Cons [of st1] show ?thesis
        by (simp add: memberOf_def) blast
    qed
  qed
qed

lemma wave_complete:
  "checkMonoRepoNeedBump sv bp k ps st = Inr st' \<Longrightarrow>
     (\<forall>p\<in>set ps. memberOf k p \<longrightarrow> covered sv bp st' (combinedDependencies p))
     \<and> closedFrom sv bp st st'"
proof (induction ps arbitrary: st)
  case Nil
  then show ?case by (simp add: closedFrom_def)
next
  case (Cons p ps)
  show ?case
  proof (cases "memberOf k p")
    case False
    with Cons show ?thesis by (auto simp: memberOf_def)
  next
    case True
    with Cons.prems obtain st1 where
      st1: "checkPackageNeedBump sv bp p st = Inr st1"
      and rest: "checkMonoRepoNeedBump sv bp k ps st1 = Inr st'"
      by (auto simp: memberOf_def split: sum.splits)
    from checkPackageNeedBump_complete [OF st1]
    have cov1: "covered sv bp st1 (combinedDependencies p)" and cl1: "closedFrom sv bp st st1"
      by simp_all
    from Cons.IH [OF rest]
    have cov2: "\<forall>q\<in>set ps. memberOf k q \<longrightarrow> covered sv bp st' (combinedDependencies q)"
      and cl2: "closedFrom sv bp st1 st'" by simp_all
    from wave_mono [where st=st1 and sv=sv and bp=bp and k=k and ps=ps] rest
    have mono: "set (packageNeedBump st1) \<subseteq> set (packageNeedBump st')"
      "serverNeedBump st1 \<longrightarrow> serverNeedBump st'" by simp_all
    from cov1 mono have "covered sv bp st' (combinedDependencies p)" by (rule covered_mono)
    with cov2 closedFrom_trans [OF cl1 cl2 mono] show ?thesis by simp
  qed
qed

lemma bumpTraversal_sound:
  assumes "bumpTraversal sv bp pkgs initialState = Inr st"
    and "q \<in> set (packageNeedBump st)"
  shows "\<exists>r. bumpRoots pkgs st r \<and> (satEdge sv bp)\<^sup>+\<^sup>+ r q"
proof -
  from assms(1) obtain st1 where
    w1: "checkMonoRepoNeedBump sv bp Client pkgs initialState = Inr st1"
    and w2: "if serverNeedBump st1
             then checkMonoRepoNeedBump sv bp Server pkgs st1 = Inr st else st = st1"
    by (auto simp: bumpTraversal_def split: sum.splits if_splits)
  from wave_sound [of sv bp Client pkgs initialState] w1
  have s1: "set (packageNeedBump st1)
      \<subseteq> {q. \<exists>p\<in>set pkgs. memberOf Client p \<and> (satEdge sv bp)\<^sup>+\<^sup>+ p q}"
    by (simp add: initialState_def)
  show ?thesis
  proof (cases "serverNeedBump st1")
    case False
    with w2 s1 assms(2) show ?thesis by (auto simp: bumpRoots_def)
  next
    case True
    with w2 have w2': "checkMonoRepoNeedBump sv bp Server pkgs st1 = Inr st" by simp
    from wave_mono [where st=st1 and sv=sv and bp=bp and k=Server and ps=pkgs] w2' True
    have flag: "serverNeedBump st" by simp
    from wave_sound [of sv bp Server pkgs st1] w2'
    have "set (packageNeedBump st) \<subseteq> set (packageNeedBump st1)
        \<union> {q. \<exists>p\<in>set pkgs. memberOf Server p \<and> (satEdge sv bp)\<^sup>+\<^sup>+ p q}"
      by simp
    with s1 assms(2) flag show ?thesis by (auto simp: bumpRoots_def)
  qed
qed

lemma bumpTraversal_complete:
  assumes "bumpTraversal sv bp pkgs initialState = Inr st"
  shows "(\<forall>r. bumpRoots pkgs st r \<longrightarrow> covered sv bp st (combinedDependencies r))
         \<and> (\<forall>p\<in>set (packageNeedBump st). covered sv bp st (combinedDependencies p))"
proof -
  from assms(1) obtain st1 where
    w1: "checkMonoRepoNeedBump sv bp Client pkgs initialState = Inr st1"
    and w2: "if serverNeedBump st1
             then checkMonoRepoNeedBump sv bp Server pkgs st1 = Inr st else st = st1"
    by (auto simp: bumpTraversal_def split: sum.splits if_splits)
  from wave_complete [OF w1]
  have c1: "\<forall>p\<in>set pkgs. memberOf Client p \<longrightarrow> covered sv bp st1 (combinedDependencies p)"
    and cl1: "closedFrom sv bp initialState st1" by simp_all
  show ?thesis
  proof (cases "serverNeedBump st1")
    case False
    with w2 c1 cl1 show ?thesis
      by (auto simp: bumpRoots_def closedFrom_def initialState_def)
  next
    case True
    with w2 have w2': "checkMonoRepoNeedBump sv bp Server pkgs st1 = Inr st" by simp
    from wave_mono [where st=st1 and sv=sv and bp=bp and k=Server and ps=pkgs] w2'
    have mono: "set (packageNeedBump st1) \<subseteq> set (packageNeedBump st)"
      "serverNeedBump st1 \<longrightarrow> serverNeedBump st" by simp_all
    from wave_complete [OF w2']
    have c2: "\<forall>p\<in>set pkgs. memberOf Server p \<longrightarrow> covered sv bp st (combinedDependencies p)"
      and cl2: "closedFrom sv bp st1 st" by simp_all
    from c1 mono
    have c1': "\<forall>p\<in>set pkgs. memberOf Client p \<longrightarrow> covered sv bp st (combinedDependencies p)"
      by (blast intro: covered_mono)
    from closedFrom_trans [OF cl1 cl2 mono]
    have "\<forall>p\<in>set (packageNeedBump st). covered sv bp st (combinedDependencies p)"
      by (simp add: closedFrom_def initialState_def)
    with c1' c2 show ?thesis by (auto simp: bumpRoots_def)
  qed
qed

lemma scan_standalone:
  "scan sv bp ds st r \<Longrightarrow>
     set (packageNeedBump (finalState r)) \<subseteq> set (packageNeedBump st) \<union> {p. monoRepo p = None}"
  by (induction rule: scan.induct)
     (auto elim!: localEdge_cases simp: enter_def)

lemma wave_standalone:
  "set (packageNeedBump (finalState (checkMonoRepoNeedBump sv bp k ps st)))
     \<subseteq> set (packageNeedBump st) \<union> {p. monoRepo p = None}"
proof (induction ps arbitrary: st)
  case Nil
  show ?case by simp
next
  case (Cons p ps)
  let ?r = "checkPackageNeedBump sv bp p st"
  have head: "set (packageNeedBump (finalState ?r))
      \<subseteq> set (packageNeedBump st) \<union> {p. monoRepo p = None}"
    unfolding checkPackageNeedBump_def
    using scan_standalone [OF scanDeps_scan [of sv bp "combinedDependencies p"
                      "st\<lparr>scanLog := scanLog st @ [p]\<rparr>"]]
    by simp
  show ?case
  proof (cases ?r)
    case (Inl x)
    with head Cons [of st] show ?thesis by simp
  next
    case (Inr st1)
    with head Cons [of st1] Cons [of st] show ?thesis by auto
  qed
qed

lemma bumpTraversal_standalone:
  "set (packageNeedBump (finalState (bumpTraversal sv bp pkgs initialState)))
     \<subseteq> {p. monoRepo p = None}"
proof -
  let ?r1 = "checkMonoRepoNeedBump sv bp Client pkgs initialState"
  have one: "set (packageNeedBump (finalState ?r1)) \<subseteq> {p. monoRepo p = None}"
    using wave_standalone [of sv bp Client pkgs initialState] by (simp add: initialState_def)
  show ?thesis
  proof (cases ?r1)
    case (Inl x)
    with one show ?thesis by (simp add: bumpTraversal_def)
  next
    case (Inr st1)
    with one wave_standalone [of sv bp Server pkgs st1] show ?thesis
      by (auto simp: bumpTraversal_def)
  qed
qed

lemma kind_cases: "kind m \<noteq> Server \<Longrightarrow> kind m = Client"
  by (cases "kind m") simp_all

lemma bumpTraversal_closed:
  assumes ok: "bumpTraversal sv bp pkgs initialState = Inr st"
    and reg: "snd ` set bp \<subseteq> set pkgs"
    and p: "bumpRoots pkgs st p \<or> p \<in> set (packageNeedBump st)"
    and e: "satEdge sv bp p q"
  shows "bumpRoots pkgs st q \<or> q \<in> set (packageNeedBump st)"
proof -
  from bumpTraversal_complete [OF ok] p
  have cov: "covered sv bp st (combinedDependencies p)" by blast
  from e have tgt: "satTarget sv bp (combinedDependencies p) q"
    by (simp add: satEdge_satTarget)
  then obtain d :: Dependency where "map_of bp (dep_name d) = Some q"
    by (auto simp: satTarget_def list_ex_iff)
  then have "q \<in> snd ` set bp" by (force dest: map_of_SomeD)
  with reg have q: "q \<in> set pkgs" by blast
  show ?thesis
  proof (cases "monoRepo q")
    case None
    with cov tgt show ?thesis by (auto simp: covered_def)
  next
    case (Some m)
    show ?thesis
    proof (cases "kind m = Server")
      case True
      with cov tgt Some have "serverNeedBump st" by (auto simp: covered_def)
      with q Some True show ?thesis by (simp add: bumpRoots_def memberOf_def)
    next
      case False
      then have "kind m = Client" by (rule kind_cases)
      with q Some show ?thesis by (simp add: bumpRoots_def memberOf_def)
    qed
  qed
qed

lemma bumpSet_char:
  assumes reg: "snd ` set bp \<subseteq> set pkgs"
    and ok: "bumpTraversal sv bp pkgs initialState = Inr st"
  shows "set (packageNeedBump st)
     = {q. monoRepo q = None \<and> (\<exists>r. bumpRoots pkgs st r \<and> (satEdge sv bp)\<^sup>+\<^sup>+ r q)}"
proof (intro set_eqI iffI)
  fix q assume q: "q \<in> set (packageNeedBump st)"
  from bumpTraversal_standalone [of sv bp pkgs] ok q have "monoRepo q = None" by auto
  with bumpTraversal_sound [OF ok q]
  show "q \<in> {q. monoRepo q = None \<and> (\<exists>r. bumpRoots pkgs st r \<and> (satEdge sv bp)\<^sup>+\<^sup>+ r q)}"
    by simp
next
  fix q assume "q \<in> {q. monoRepo q = None \<and> (\<exists>r. bumpRoots pkgs st r \<and> (satEdge sv bp)\<^sup>+\<^sup>+ r q)}"
  then obtain r where sa: "monoRepo q = None" and r: "bumpRoots pkgs st r"
    and path: "(satEdge sv bp)\<^sup>+\<^sup>+ r q" by blast
  from path have "bumpRoots pkgs st q \<or> q \<in> set (packageNeedBump st)"
  proof (induction rule: tranclp_induct)
    case (base y)
    from bumpTraversal_closed [OF ok reg _ base] r show ?case by blast
  next
    case (step y z)
    from bumpTraversal_closed [OF ok reg step.IH step.hyps(2)] show ?case .
  qed
  with sa show "q \<in> set (packageNeedBump st)"
    by (auto simp: bumpRoots_def memberOf_def)
qed

subsection \<open>The set has no repetition\<close>

lemma scan_distinct:
  "scan sv bp ds st r \<Longrightarrow> distinct (packageNeedBump st)
     \<Longrightarrow> distinct (packageNeedBump (finalState r))"
  by (induction rule: scan.induct)
     (auto elim!: localEdge_cases simp: enter_def)

lemma wave_distinct:
  "distinct (packageNeedBump st)
     \<Longrightarrow> distinct (packageNeedBump (finalState (checkMonoRepoNeedBump sv bp k ps st)))"
proof (induction ps arbitrary: st)
  case Nil
  then show ?case by simp
next
  case (Cons p ps)
  let ?r = "checkPackageNeedBump sv bp p st"
  have head: "distinct (packageNeedBump (finalState ?r))"
    unfolding checkPackageNeedBump_def
    by (rule scan_distinct [OF scanDeps_scan]) (use Cons.prems in simp)
  show ?case
  proof (cases ?r)
    case (Inl x)
    with head Cons show ?thesis by simp
  next
    case (Inr st1)
    with head Cons.IH [of st1] Cons.IH [OF Cons.prems] show ?thesis by simp
  qed
qed

lemma bumpTraversal_distinct:
  "distinct (packageNeedBump (finalState (bumpTraversal sv bp pkgs initialState)))"
proof -
  let ?r1 = "checkMonoRepoNeedBump sv bp Client pkgs initialState"
  have one: "distinct (packageNeedBump (finalState ?r1))"
    by (rule wave_distinct) (simp add: initialState_def)
  show ?thesis
  proof (cases ?r1)
    case (Inl x)
    with one show ?thesis by (simp add: bumpTraversal_def)
  next
    case (Inr st1)
    with one wave_distinct [of st1 sv bp Server pkgs] show ?thesis
      by (simp add: bumpTraversal_def)
  qed
qed


lemma inner_call_is_checkPackageNeedBump:
  "scanDeps sv bp (combinedDependencies dp) (enter dp st)
     = checkPackageNeedBump sv bp dp (st\<lparr>packageNeedBump := packageNeedBump st @ [dp]\<rparr>)"
  by (simp add: checkPackageNeedBump_def enter_def)

subsection \<open>Termination, and every package at most once\<close>

text \<open>
  C2: for every registry and every \<^verbatim>\<open>buildPackages\<close>, cyclic or not, the recursion of the
  traversal is well-founded at every argument (\<open>scanDeps_dom\<close> is the accessible part of
  the call relation of \<open>scanDeps\<close>); when the traversal ends, normally or with an
  exception, no package is twice in \<open>packageNeedBump\<close>; and when the list of the registry
  names no package twice, \<^verbatim>\<open>checkPackageNeedBump\<close> has been called at most once on each
  package.
\<close>

theorem traversal_terminates_each_package_once:
  "scanDeps_dom (sv, bp, ds, st)
   \<and> distinct (packageNeedBump (finalState (bumpTraversal sv bp pkgs initialState)))
   \<and> (distinct pkgs
        \<longrightarrow> distinct (scanLog (finalState (bumpTraversal sv bp pkgs initialState))))"
proof (intro conjI impI)
  show "scanDeps_dom (sv, bp, ds, st)" by (rule scanDeps_total)
  show "distinct (packageNeedBump (finalState (bumpTraversal sv bp pkgs initialState)))"
    by (rule bumpTraversal_distinct)
next
  assume "distinct pkgs"
  from bumpTraversal_logInv [OF this]
  show "distinct (scanLog (finalState (bumpTraversal sv bp pkgs initialState)))"
    by (simp add: logInv_def)
qed

lemma cycle_run:
  "bumpTraversal caretSemver (createPackageMap cycleRegistry) cycleRegistry initialState
     = Inr \<lparr>packageNeedBump = [ping, pong], serverNeedBump = False,
            depVersions = [(''ping'', ''1.0.0''), (''pong'', ''1.0.0'')],
            scanLog = [app, ping, pong]\<rparr>"
  by (simp add: traversal_defs example_defs)

theorem traversal_terminates_each_package_once_witness:
  "distinct cycleRegistry
   \<and> satEdge caretSemver (createPackageMap cycleRegistry) ping pong
   \<and> satEdge caretSemver (createPackageMap cycleRegistry) pong ping
   \<and> scanDeps_dom (caretSemver, createPackageMap cycleRegistry, combinedDependencies app,
                    initialState)
   \<and> finalState (bumpTraversal caretSemver (createPackageMap cycleRegistry) cycleRegistry
        initialState)
      = \<lparr>packageNeedBump = [ping, pong], serverNeedBump = False,
          depVersions = [(''ping'', ''1.0.0''), (''pong'', ''1.0.0'')],
          scanLog = [app, ping, pong]\<rparr>
   \<and> distinct (scanLog (finalState
        (bumpTraversal caretSemver (createPackageMap cycleRegistry) cycleRegistry initialState)))"
proof -
  have d: "distinct cycleRegistry"
    by (simp add: example_defs)
  have e: "satEdge caretSemver (createPackageMap cycleRegistry) ping pong"
    "satEdge caretSemver (createPackageMap cycleRegistry) pong ping"
    by (simp_all add: satEdge_def satTarget_def createPackageMap_def example_defs)
  from traversal_terminates_each_package_once
         [of caretSemver "createPackageMap cycleRegistry" "combinedDependencies app"
             initialState cycleRegistry] d e cycle_run
  show ?thesis by simp
qed

subsection \<open>The example scenario of the spec\<close>

text \<open>
  C8, as the spec states it, fails: on the registry of core, utils and tool the traversal
  from the Client group does not put \<^verbatim>\<open>tool\<close> into the set. The traversal follows the
  dependencies of the packages it scans, and no scanned package depends on \<^verbatim>\<open>tool\<close>;
  \<^verbatim>\<open>tool\<close> depends on \<^verbatim>\<open>core\<close>, which is the other direction.
\<close>

theorem example_scenario_counterexample:
  "set (packageNeedBump (finalState
     (bumpTraversal caretSemver (createPackageMap toolRegistry) toolRegistry initialState)))
   \<noteq> {tool}"
  by (simp add: traversal_defs example_defs)

text \<open>
  C8, amended: on that registry the traversal from the Client group ends normally with
  an empty set and with the server flag not set. It scans core and utils, and the edge
  from utils to core records the version of the Client group.
\<close>

theorem example_scenario_bump_set_empty:
  "bumpTraversal caretSemver (createPackageMap toolRegistry) toolRegistry initialState
     = Inr \<lparr>packageNeedBump = [], serverNeedBump = False,
            depVersions = [(''Client'', ''1.2.0'')], scanLog = [core, utils]\<rparr>"
  by (simp add: traversal_defs example_defs)

subsection \<open>An edge that is not satisfied\<close>

lemma pinned_run:
  "bumpTraversal caretSemver (createPackageMap pinnedRegistry) pinnedRegistry initialState
     = Inl (InconsistentVersion ''driver'' ''1.0.0'',
            \<lparr>packageNeedBump = [], serverNeedBump = False,
             depVersions = [(''Client'', ''2.0.0'')], scanLog = [shell]\<rparr>)"
  by (simp add: traversal_defs example_defs)

text \<open>
  C3, as the spec states it, fails: the minimum version goes through \<^verbatim>\<open>saveVersion\<close>, so
  that for a member of a mono-repo it is not written under the dependency, and not at all
  when the group key holds another version. In the registry of shell, kernel and driver
  the edge from shell to driver resolves, is not satisfied and has the minimum version
  1.0.0; the run ends there with the inconsistent-version error, and the map holds the
  version 2.0.0 of the Client group and nothing else.
\<close>

theorem unsatisfied_edge_counterexample:
  "map_of (createPackageMap pinnedRegistry) ''driver'' = Some driver
   \<and> satisfies caretSemver (version driver) ''^1.0.0'' = Some False
   \<and> minVersion caretSemver ''^1.0.0'' = SemVer ''1.0.0''
   \<and> bumpTraversal caretSemver (createPackageMap pinnedRegistry) pinnedRegistry initialState
     = Inl (InconsistentVersion ''driver'' ''1.0.0'',
            \<lparr>packageNeedBump = [], serverNeedBump = False,
             depVersions = [(''Client'', ''2.0.0'')], scanLog = [shell]\<rparr>)"
  by (simp add: traversal_defs example_defs)

text \<open>
  C3, amended: for every edge whose dependency resolves, whose range the current version
  does not satisfy and for whose range \<^verbatim>\<open>minVersion\<close> returns a version, the loop passes
  that minimum version (not the current version) to \<^verbatim>\<open>saveVersion\<close> with the mono-repo of
  the dependency, stops with its error if there is one, and goes on with the remaining
  edges otherwise; for a dependency without a mono-repo the map then holds the minimum
  version under the name of the dependency; and the edge leaves the set and the server
  flag as they were.
\<close>

theorem unsatisfied_edge_saves_minimum:
  assumes "map_of bp (dep_name d) = Some dp"
    and "satisfies sv (version dp) (dep_range d) = Some False"
    and "minVersion sv (dep_range d) = SemVer mv"
  shows "scanDeps sv bp (d # ds) st =
           (case saveVersion (depVersions st) (dep_name d) mv (monoRepo dp) of
              Inl e \<Rightarrow> Inl (e, st)
            | Inr dv \<Rightarrow> scanDeps sv bp ds (st\<lparr>depVersions := dv\<rparr>))
         \<and> (monoRepo dp = None \<longrightarrow>
              scanDeps sv bp [d] st =
                Inr (st\<lparr>depVersions := AList.update (dep_name d) mv (depVersions st)\<rparr>))
         \<and> packageNeedBump (finalState (scanDeps sv bp [d] st)) = packageNeedBump st
         \<and> serverNeedBump (finalState (scanDeps sv bp [d] st)) = serverNeedBump st"
  using assms by (simp add: saveVersion_def split: sum.split)

theorem unsatisfied_edge_saves_minimum_witness:
  "scanDeps caretSemver (createPackageMap legacyRegistry) [dependsOn ''legacy'' ''^1.0.0'']
      initialState
     = Inr \<lparr>packageNeedBump = [], serverNeedBump = False,
            depVersions = [(''legacy'', ''1.0.0'')], scanLog = []\<rparr>"
proof -
  have a: "map_of (createPackageMap legacyRegistry) (dep_name (dependsOn ''legacy'' ''^1.0.0''))
             = Some legacy"
    by (simp add: createPackageMap_def example_defs)
  have b: "satisfies caretSemver (version legacy) (dep_range (dependsOn ''legacy'' ''^1.0.0''))
             = Some False"
    by (simp add: example_defs)
  have c: "minVersion caretSemver (dep_range (dependsOn ''legacy'' ''^1.0.0'')) = SemVer ''1.0.0''"
    by (simp add: example_defs)
  have n: "monoRepo legacy = None" by (simp add: example_defs)
  note unsatisfied_edge_saves_minimum [OF a b c, of "[]" initialState, THEN conjunct2, THEN conjunct1, THEN mp, OF n]
  then show ?thesis by (simp add: initialState_def dependsOn_def del: scanDeps.simps)
qed


text \<open>
  The two ways in which such an edge ends the run before anything is saved: an exception
  of \<^verbatim>\<open>minVersion\<close>, and the \<^verbatim>\<open>TypeError\<close> of reading \<^verbatim>\<open>.version\<close> of the \<^verbatim>\<open>null\<close> that
  \<^verbatim>\<open>minVersion\<close> returned.
\<close>

lemma unsatisfied_edge_without_minimum:
  assumes "map_of bp (dep_name d) = Some dp"
    and "satisfies sv (version dp) (dep_range d) = Some False"
  shows "minVersion sv (dep_range d) = Throws
           \<Longrightarrow> scanDeps sv bp (d # ds) st = Inl (MalformedRange, st)"
    and "minVersion sv (dep_range d) = Null
           \<Longrightarrow> scanDeps sv bp (d # ds) st = Inl (TypeError, st)"
  using assms by simp_all

subsection \<open>The Server group\<close>


lemma server_run:
  "checkMonoRepoNeedBump caretSemver (createPackageMap serverRegistry) Client serverRegistry
      initialState
     = Inr \<lparr>packageNeedBump = [], serverNeedBump = True,
            depVersions = [(''Server'', ''2.0.0'')], scanLog = [clientPkg]\<rparr>
   \<and> bumpTraversal caretSemver (createPackageMap serverRegistry) serverRegistry initialState
     = Inr \<lparr>packageNeedBump = [helper], serverNeedBump = True,
            depVersions = [(''Server'', ''2.0.0''), (''helper'', ''1.0.0'')],
            scanLog = [clientPkg, serverLib, serverApp, helper]\<rparr>"
  by (simp add: traversal_defs example_defs)



lemma satEdge_clientPkg:
  "satEdge caretSemver (createPackageMap serverRegistry) clientPkg q \<longleftrightarrow> q = serverLib"
  by (auto simp: satEdge_def satTarget_def createPackageMap_def example_defs)

lemma satEdge_serverLib:
  "\<not> satEdge caretSemver (createPackageMap serverRegistry) serverLib q"
  by (simp add: satEdge_def satTarget_def example_defs)

lemma reach_clientPkg:
  "(satEdge caretSemver (createPackageMap serverRegistry))\<^sup>+\<^sup>+ clientPkg q \<Longrightarrow> q = serverLib"
  by (induction rule: tranclp_induct) (simp_all add: satEdge_clientPkg satEdge_serverLib)

subsection \<open>The set is what the waves reach\<close>

text \<open>
  C1, as the spec states it, fails: the second wave starts from every member of the
  Server group, not only from those that the initiating group reaches. In the registry of
  client-pkg, server-lib, server-app and helper, the only member of the Client group is
  client-pkg, helper is in the set, and no path of satisfied edges leads from client-pkg
  to helper.
\<close>

theorem second_wave_counterexample:
  "filter (memberOf Client) serverRegistry = [clientPkg]
   \<and> helper \<in> set (packageNeedBump (finalState
        (bumpTraversal caretSemver (createPackageMap serverRegistry) serverRegistry
           initialState)))
   \<and> \<not> (satEdge caretSemver (createPackageMap serverRegistry))\<^sup>+\<^sup>+ clientPkg helper"
proof -
  have "helper \<noteq> serverLib" by (simp add: example_defs)
  with reach_clientPkg [of helper]
  have "\<not> (satEdge caretSemver (createPackageMap serverRegistry))\<^sup>+\<^sup>+ clientPkg helper"
    by blast
  moreover have "filter (memberOf Client) serverRegistry = [clientPkg]"
    by (simp add: memberOf_def example_defs)
  ultimately show ?thesis using server_run by simp
qed

text \<open>
  C1, amended: when every package of \<^verbatim>\<open>buildPackages\<close> is a package of the registry and
  the traversal from the initial state ends normally, the set is exactly the set of the
  packages without a mono-repo to which a path of satisfied edges leads from a member of
  the Client group or, when the server flag is set at the end, from a member of the
  Server group.
\<close>

theorem bump_set_is_reachable_from_both_waves:
  assumes "snd ` set bp \<subseteq> set pkgs"
    and "bumpTraversal sv bp pkgs initialState = Inr st"
  shows "set (packageNeedBump st)
     = {q. monoRepo q = None
           \<and> (\<exists>r\<in>set pkgs. (memberOf Client r \<or> (serverNeedBump st \<and> memberOf Server r))
                  \<and> (satEdge sv bp)\<^sup>+\<^sup>+ r q)}"
  using bumpSet_char [OF assms] by (auto simp: bumpRoots_def)

theorem bump_set_is_reachable_from_both_waves_witness:
  "snd ` set (createPackageMap serverRegistry) \<subseteq> set serverRegistry
   \<and> {helper}
     = {q. monoRepo q = None
           \<and> (\<exists>r\<in>set serverRegistry. (memberOf Client r \<or> (True \<and> memberOf Server r))
                  \<and> (satEdge caretSemver (createPackageMap serverRegistry))\<^sup>+\<^sup>+ r q)}"
proof -
  have reg: "snd ` set (createPackageMap serverRegistry) \<subseteq> set serverRegistry"
    by (auto simp: createPackageMap_def)
  from bump_set_is_reachable_from_both_waves [OF reg server_run [THEN conjunct2]] reg
  show ?thesis by simp
qed

subsection \<open>Errors of the decision phase and the external commands\<close>

text \<open>
  C9: when the traversal throws, or any other step of the decision phase (the two
  \<^verbatim>\<open>saveVersion\<close> calls for the generator packages, \<^verbatim>\<open>collectVersions\<close>, the report of the
  release versions), \<open>main\<close> ends with that error and has run no external command.
\<close>

theorem decision_errors_precede_commands:
  "(bumpTraversal sv (createPackageMap pkgs) pkgs initialState = Inl (e, st)
      \<longrightarrow> main sv pkgs generatorPackage templatePackage pkgs' generatorPackage' templatePackage'
            = ([], Some e))
   \<and> (decisionPhase sv pkgs generatorPackage templatePackage = Inl e
      \<longrightarrow> main sv pkgs generatorPackage templatePackage pkgs' generatorPackage' templatePackage'
            = ([], Some e))"
  by (simp add: main_def decisionPhase_def)

theorem decision_errors_precede_commands_witness:
  "decisionPhase caretSemver pinnedRegistry generatorPkg templatePkg
     = Inl (InconsistentVersion ''driver'' ''1.0.0'')
   \<and> main caretSemver pinnedRegistry generatorPkg templatePkg
        pinnedRegistry generatorPkg templatePkg
     = ([], Some (InconsistentVersion ''driver'' ''1.0.0''))"
proof -
  have phase: "decisionPhase caretSemver pinnedRegistry generatorPkg templatePkg
     = Inl (InconsistentVersion ''driver'' ''1.0.0'')"
    by (simp add: decisionPhase_def pinned_run)
  note inst = decision_errors_precede_commands
    [where sv = caretSemver and pkgs = pinnedRegistry and generatorPackage = generatorPkg
       and templatePackage = templatePkg and pkgs' = pinnedRegistry
       and generatorPackage' = generatorPkg and templatePackage' = templatePkg]
  from inst [THEN conjunct1, THEN mp, OF pinned_run]
  have traversal: "main caretSemver pinnedRegistry generatorPkg templatePkg
        pinnedRegistry generatorPkg templatePkg
     = ([], Some (InconsistentVersion ''driver'' ''1.0.0''))" .
  from inst [THEN conjunct2, THEN mp, OF phase] phase traversal
  show ?thesis by simp
qed

end
